theory Spec2Isabelle
  imports Main "HOL-Library.Word"
begin

section \<open>The LRU cache\<close>

text \<open>
  The class \<open>LRUCache\<close> keeps three members: the capacity \<open>cap\<close>, the recency list
  \<open>cache\<close> (a \<open>std::list\<close> of key/value pairs, most recently used first) and the lookup
  index \<open>map\<close> (a \<open>std::unordered_map\<close> from a key to an iterator into the list).

  A \<open>std::list\<close> iterator designates one node of the list and stays valid while the node
  lives, wherever \<open>splice\<close> moves it. The embedding therefore gives every node an identity
  (\<open>iter\<close>, the node's address) and writes the list as the sequence of its nodes, head
  first, each with its identity and its pair. The index maps a key to such an identity.
  The member \<open>map\<close> is called \<open>map_index\<close> here, since \<open>map\<close> is the list functional of HOL.
  The mutex \<open>mtx\<close> makes every member function atomic; the embedding is sequential and
  each function is one step.
\<close>

type_synonym iter = nat
type_synonym entry = "string \<times> string"
type_synonym node = "iter \<times> entry"

record lru_cache =
  cap :: nat
  cache :: "node list"
  map_index :: "string \<rightharpoonup> iter"

text \<open>
  Using an iterator whose node is not in the list (dereferencing it, splicing it, erasing
  it) is undefined behaviour in C++. The embedding makes it an error value, so that a
  theorem saying that an operation returns also says that it stays defined. The second
  error is an exception thrown by the PostgreSQL client library, with its message.
\<close>

datatype error = Undefined_behaviour | Pqxx_exception string

definition LRUCache :: "nat \<Rightarrow> lru_cache" where
  "LRUCache capacity = \<lparr>cap = capacity, cache = [], map_index = Map.empty\<rparr>"

text \<open>\<open>cache.erase(it)\<close>: unlink the node that \<open>it\<close> designates.\<close>

definition erase :: "iter \<Rightarrow> node list \<Rightarrow> node list" where
  "erase it xs = filter (\<lambda>n. fst n \<noteq> it) xs"

text \<open>
  \<open>cache.splice(cache.begin(), cache, it)\<close> for a node \<open>it\<close> of the list carrying the
  pair \<open>e\<close>: the node is unlinked and relinked at the head; its identity stays.
\<close>

definition splice_begin :: "iter \<Rightarrow> entry \<Rightarrow> node list \<Rightarrow> node list" where
  "splice_begin it e xs = (it, e) # erase it xs"

text \<open>
  \<open>cache.emplace_front(key, value)\<close> allocates a node. The allocator returns an address
  that no live node has; the embedding takes the first one above all live nodes.
\<close>

fun new_iter :: "node list \<Rightarrow> iter" where
  "new_iter [] = 0"
| "new_iter ((i, e) # xs) = max (Suc i) (new_iter xs)"

definition get :: "lru_cache \<Rightarrow> string \<Rightarrow> error + (string option \<times> lru_cache)" where
  "get c key =
     (case map_index c key of
        None \<Rightarrow> Inr (None, c)
      | Some it \<Rightarrow>
          (case map_of (cache c) it of
             None \<Rightarrow> Inl Undefined_behaviour
           | Some e \<Rightarrow> Inr (Some (snd e), c\<lparr>cache := splice_begin it e (cache c)\<rparr>)))"

text \<open>
  The two halves of the insertion branch of \<open>put\<close>: \<open>emplace_new\<close> is
  \<open>cache.emplace_front(key, value); map[key] = cache.begin();\<close> and \<open>evict_back\<close> is the
  body of \<open>if (cache.size() > cap)\<close>: it reads the key of the last node, unlinks that node
  and erases the key from the index. \<open>cache.back()\<close> on an empty list is undefined.
\<close>

definition emplace_new :: "lru_cache \<Rightarrow> string \<Rightarrow> string \<Rightarrow> lru_cache" where
  "emplace_new c key val =
     (let it = new_iter (cache c)
      in c\<lparr>cache := (it, (key, val)) # cache c, map_index := (map_index c)(key \<mapsto> it)\<rparr>)"

definition evict_back :: "lru_cache \<Rightarrow> error + lru_cache" where
  "evict_back c =
     (if cache c = [] then Inl Undefined_behaviour
      else (let last_key = fst (snd (last (cache c)))
            in Inr (c\<lparr>cache := butlast (cache c),
                       map_index := (map_index c)(last_key := None)\<rparr>)))"

definition put :: "lru_cache \<Rightarrow> string \<Rightarrow> string \<Rightarrow> error + lru_cache" where
  "put c key val =
     (case map_index c key of
        Some it \<Rightarrow>
          (case map_of (cache c) it of
             None \<Rightarrow> Inl Undefined_behaviour
           | Some e \<Rightarrow> Inr (c\<lparr>cache := splice_begin it (fst e, val) (cache c)\<rparr>))
      | None \<Rightarrow>
          (let c1 = emplace_new c key val
           in if length (cache c1) > cap c1 then evict_back c1 else Inr c1))"

definition remove :: "lru_cache \<Rightarrow> string \<Rightarrow> error + lru_cache" where
  "remove c key =
     (case map_index c key of
        None \<Rightarrow> Inr c
      | Some it \<Rightarrow>
          (case map_of (cache c) it of
             None \<Rightarrow> Inl Undefined_behaviour
           | Some e \<Rightarrow> Inr (c\<lparr>cache := erase it (cache c),
                                 map_index := (map_index c)(key := None)\<rparr>)))"

text \<open>A sequence of member calls on one cache, stopping at the first error.\<close>

datatype cache_op = Get string | Put string string | Remove string

fun apply_op :: "lru_cache \<Rightarrow> cache_op \<Rightarrow> error + lru_cache" where
  "apply_op c (Get key) = (case get c key of Inl e \<Rightarrow> Inl e | Inr r \<Rightarrow> Inr (snd r))"
| "apply_op c (Put key val) = put c key val"
| "apply_op c (Remove key) = remove c key"

fun run :: "lru_cache \<Rightarrow> cache_op list \<Rightarrow> error + lru_cache" where
  "run c [] = Inr c"
| "run c (x # xs) = (case apply_op c x of Inl e \<Rightarrow> Inl e | Inr c' \<Rightarrow> run c' xs)"

text \<open>The keys of the recency list, most recently used first.\<close>

definition keys_of :: "lru_cache \<Rightarrow> string list" where
  "keys_of c = map (\<lambda>n. fst (snd n)) (cache c)"

text \<open>
  The structural invariant of the class: the nodes of the list are distinct (each node
  has its own address), no two nodes carry the same key, the list is no longer than the
  capacity, and the index holds exactly the pairs (key, node) of the list.
\<close>

definition lru_inv :: "lru_cache \<Rightarrow> bool" where
  "lru_inv c \<longleftrightarrow>
     distinct (map fst (cache c)) \<and>
     distinct (keys_of c) \<and>
     length (cache c) \<le> cap c \<and>
     (\<forall>k it. map_index c k = Some it \<longleftrightarrow> (\<exists>v. (it, k, v) \<in> set (cache c)))"

text \<open>
  The words of the specification, for a sequence of \<open>put\<close> calls given as its (key, value)
  arguments in call order: the distinct keys of the sequence, most recently used first.
  \<open>remdups\<close> keeps the last occurrence of every key, so the reversed result lists every
  key once, ordered by its latest use, latest first.
\<close>

definition mru_keys :: "(string \<times> string) list \<Rightarrow> string list" where
  "mru_keys ps = rev (remdups (map fst ps))"

definition puts :: "(string \<times> string) list \<Rightarrow> cache_op list" where
  "puts ps = map (\<lambda>p. Put (fst p) (snd p)) ps"

section \<open>The backing store and the request handlers\<close>

text \<open>
  The class \<open>Database\<close> wraps the table \<open>kv(key TEXT PRIMARY KEY, value TEXT)\<close> of a
  PostgreSQL database. The embedding keeps the table as a map. Every member function
  opens (or reuses) a connection and runs one transaction; the client library throws when
  the connection or the statement fails, and then nothing is committed. Whether it throws
  is the environment's choice at each call, so it is an argument of the model
  (\<open>pq_result\<close>).
\<close>

record database =
  connStr :: string
  kv :: "string \<rightharpoonup> string"

datatype pq_result = Pq_ok | Pq_throws string

definition db_put :: "pq_result \<Rightarrow> database \<Rightarrow> string \<Rightarrow> string \<Rightarrow> error + database" where
  "db_put pq d key val =
     (case pq of
        Pq_throws msg \<Rightarrow> Inl (Pqxx_exception msg)
      | Pq_ok \<Rightarrow> Inr (d\<lparr>kv := (kv d)(key \<mapsto> val)\<rparr>))"

definition db_get :: "pq_result \<Rightarrow> database \<Rightarrow> string \<Rightarrow> error + string option" where
  "db_get pq d key =
     (case pq of
        Pq_throws msg \<Rightarrow> Inl (Pqxx_exception msg)
      | Pq_ok \<Rightarrow> Inr (kv d key))"

definition db_remove :: "pq_result \<Rightarrow> database \<Rightarrow> string \<Rightarrow> error + database" where
  "db_remove pq d key =
     (case pq of
        Pq_throws msg \<Rightarrow> Inl (Pqxx_exception msg)
      | Pq_ok \<Rightarrow> Inr (d\<lparr>kv := (kv d)(key := None)\<rparr>))"

text \<open>
  The part of the HTTP response that the handlers write: \<open>res.status\<close> and, through
  \<open>res.set_content(body, content_type)\<close>, the body and its content type.
\<close>

record response =
  status :: int
  body :: string
  content_type :: string

definition set_content :: "string \<Rightarrow> string \<Rightarrow> response \<Rightarrow> response" where
  "set_content s t res = res\<lparr>body := s, content_type := t\<rparr>"

text \<open>
  What the handlers of \<open>main\<close> capture by reference: the database, the cache and the two
  global counters (\<open>std::atomic<uint64_t>\<close>, so \<open>++\<close> wraps at \<open>2^64\<close>).
\<close>

record server =
  srv_db :: database
  srv_cache :: lru_cache
  cache_hits :: "64 word"
  cache_misses :: "64 word"

text \<open>
  The handlers take the key (\<open>req.matches[1]\<close>), the request body where they read it, the
  response object to fill in and the state. An exception leaves the handler at the
  statement that throws: the result is the error and the state reached so far. The
  lines written to \<open>std::cout\<close> are left out.
\<close>

definition svr_Put ::
  "pq_result \<Rightarrow> string \<Rightarrow> string \<Rightarrow> response \<Rightarrow> server \<Rightarrow> (error + response) \<times> server" where
  "svr_Put pq key val res s =
     (case db_put pq (srv_db s) key val of
        Inl e \<Rightarrow> (Inl e, s)
      | Inr d \<Rightarrow>
          (case put (srv_cache s) key val of
             Inl e \<Rightarrow> (Inl e, s\<lparr>srv_db := d\<rparr>)
           | Inr c \<Rightarrow> (Inr (set_content ''PUT OK'' ''text/plain'' res),
                        s\<lparr>srv_db := d, srv_cache := c\<rparr>)))"

definition svr_Get ::
  "pq_result \<Rightarrow> string \<Rightarrow> response \<Rightarrow> server \<Rightarrow> (error + response) \<times> server" where
  "svr_Get pq key res s =
     (case get (srv_cache s) key of
        Inl e \<Rightarrow> (Inl e, s)
      | Inr (Some val, c) \<Rightarrow>
          (Inr (set_content (''CACHE HIT: '' @ val) ''text/plain'' res),
           s\<lparr>srv_cache := c, cache_hits := cache_hits s + 1\<rparr>)
      | Inr (None, c) \<Rightarrow>
          (let s1 = s\<lparr>srv_cache := c, cache_misses := cache_misses s + 1\<rparr>
           in case db_get pq (srv_db s1) key of
                Inl e \<Rightarrow> (Inl e, s1)
              | Inr (Some val) \<Rightarrow>
                  (case put (srv_cache s1) key val of
                     Inl e \<Rightarrow> (Inl e, s1)
                   | Inr c2 \<Rightarrow> (Inr (set_content (''DB HIT: '' @ val) ''text/plain'' res),
                                 s1\<lparr>srv_cache := c2\<rparr>))
              | Inr None \<Rightarrow>
                  (Inr (set_content ''Not found'' ''text/plain'' (res\<lparr>status := 404\<rparr>)), s1)))"

definition svr_Delete ::
  "pq_result \<Rightarrow> string \<Rightarrow> response \<Rightarrow> server \<Rightarrow> (error + response) \<times> server" where
  "svr_Delete pq key res s =
     (case db_remove pq (srv_db s) key of
        Inl e \<Rightarrow> (Inl e, s)
      | Inr d \<Rightarrow>
          (case remove (srv_cache s) key of
             Inl e \<Rightarrow> (Inl e, s\<lparr>srv_db := d\<rparr>)
           | Inr c \<Rightarrow> (Inr (set_content ''DELETE OK'' ''text/plain'' res),
                        s\<lparr>srv_db := d, srv_cache := c\<rparr>)))"

text \<open>
  \<open>main\<close> builds the cache with capacity 1000 over whatever the database holds, with both
  counters at zero, and then serves requests one after the other. A request comes with
  what the database connection does while it is served.
\<close>

definition main_init :: "database \<Rightarrow> server" where
  "main_init d = \<lparr>srv_db = d, srv_cache = LRUCache 1000, cache_hits = 0, cache_misses = 0\<rparr>"

datatype request = PUT string string | GET string | DELETE string

fun serve :: "server \<Rightarrow> pq_result \<times> response \<times> request \<Rightarrow> server" where
  "serve s (pq, res, PUT key val) = snd (svr_Put pq key val res s)"
| "serve s (pq, res, GET key) = snd (svr_Get pq key res s)"
| "serve s (pq, res, DELETE key) = snd (svr_Delete pq key res s)"

definition serve_all :: "server \<Rightarrow> (pq_result \<times> response \<times> request) list \<Rightarrow> server" where
  "serve_all s rs = foldl serve s rs"

section \<open>The invariant is kept by every operation\<close>

lemma new_iter_above: "(i, e) \<in> set xs \<Longrightarrow> i < new_iter xs"
  by (induction xs rule: new_iter.induct) auto

lemma new_iter_fresh: "(new_iter xs, e) \<notin> set xs"
  using new_iter_above by blast

lemma lru_inv_LRUCache: "lru_inv (LRUCache n)"
  by (simp add: lru_inv_def LRUCache_def keys_of_def)

lemma inv_deref:
  assumes "lru_inv c" "map_index c k = Some it"
  shows "\<exists>v. map_of (cache c) it = Some (k, v) \<and> (it, k, v) \<in> set (cache c)"
proof -
  from assms obtain v where "(it, k, v) \<in> set (cache c)"
    by (auto simp: lru_inv_def)
  moreover from assms have "distinct (map fst (cache c))"
    by (simp add: lru_inv_def)
  ultimately show ?thesis by auto
qed

lemma inv_key_unique:
  assumes "lru_inv c" "(i, k, v) \<in> set (cache c)" "(j, k, w) \<in> set (cache c)"
  shows "i = j \<and> v = w"
proof -
  from assms(1) have "inj_on (\<lambda>n. fst (snd n)) (set (cache c))"
    by (simp add: lru_inv_def keys_of_def distinct_map)
  from inj_onD[OF this _ assms(2,3)] show ?thesis by simp
qed

lemma lru_inv_splice:
  assumes "lru_inv c" "map_index c k = Some it" "map_of (cache c) it = Some e"
  shows "lru_inv (c\<lparr>cache := splice_begin it (fst e, w) (cache c)\<rparr>)"
proof -
  from inv_deref[OF assms(1,2)] assms(3) obtain v where e: "e = (k, v)" and mem: "(it, k, v) \<in> set (cache c)"
    by auto
  have d1: "distinct (map fst (cache c))" and d2: "distinct (keys_of c)" and len: "length (cache c) \<le> cap c"
    using assms(1) by (auto simp: lru_inv_def)
  have other: "\<And>i v'. (i, k, v') \<in> set (cache c) \<Longrightarrow> i = it"
    using inv_key_unique[OF assms(1) _ mem] by blast
  have "length (erase it (cache c)) < length (cache c)"
    unfolding erase_def using mem by (intro length_filter_less[of "(it, k, v)"]) auto
  then have l: "length (splice_begin it (k, w) (cache c)) \<le> cap c"
    using len by (simp add: splice_begin_def)
  have a: "distinct (map fst (splice_begin it (k, w) (cache c)))"
    using d1 by (auto simp: splice_begin_def erase_def distinct_map_filter)
  have b: "distinct (map (\<lambda>n. fst (snd n)) (splice_begin it (k, w) (cache c)))"
    using d2 other by (auto simp: splice_begin_def erase_def keys_of_def distinct_map_filter)
  have coh: "\<forall>k' it'. map_index c k' = Some it' \<longleftrightarrow> (\<exists>v. (it', k', v) \<in> set (splice_begin it (k, w) (cache c)))"
  proof (intro allI)
    fix k' it'
    have "map_index c k' = Some it' \<longleftrightarrow> (\<exists>v. (it', k', v) \<in> set (cache c))"
      using assms(1) by (simp add: lru_inv_def)
    also have "\<dots> \<longleftrightarrow> (\<exists>v. (it', k', v) \<in> set (splice_begin it (k, w) (cache c)))"
      using mem d1 by (auto simp: splice_begin_def erase_def dest: eq_key_imp_eq_value)
    finally show "map_index c k' = Some it' \<longleftrightarrow> (\<exists>v. (it', k', v) \<in> set (splice_begin it (k, w) (cache c)))" .
  qed
  show ?thesis
    unfolding lru_inv_def using a b l coh by (simp add: e keys_of_def)
qed

lemma lru_inv_get:
  assumes "lru_inv c"
  shows "\<exists>r c'. get c k = Inr (r, c') \<and> lru_inv c' \<and> cap c' = cap c"
proof (cases "map_index c k")
  case None
  then show ?thesis using assms by (simp add: get_def)
next
  case (Some it)
  from inv_deref[OF assms Some] obtain v where v: "map_of (cache c) it = Some (k, v)"
    by blast
  from lru_inv_splice[OF assms Some v, of v] show ?thesis
    by (simp add: get_def Some v)
qed

lemma lru_inv_remove:
  assumes "lru_inv c"
  shows "\<exists>c'. remove c k = Inr c' \<and> lru_inv c' \<and> cap c' = cap c"
proof (cases "map_index c k")
  case None
  then show ?thesis using assms by (simp add: remove_def)
next
  case (Some it)
  from inv_deref[OF assms Some] obtain v where v: "map_of (cache c) it = Some (k, v)"
    and mem: "(it, k, v) \<in> set (cache c)"
    by blast
  have other: "\<And>i v'. (i, k, v') \<in> set (cache c) \<Longrightarrow> i = it"
    using inv_key_unique[OF assms _ mem] by blast
  have coh: "\<And>k' it'. map_index c k' = Some it' \<longleftrightarrow> (\<exists>v. (it', k', v) \<in> set (cache c))"
    using assms by (simp add: lru_inv_def)
  have d1: "distinct (map fst (cache c))"
    using assms by (simp add: lru_inv_def)
  have "lru_inv (c\<lparr>cache := erase it (cache c), map_index := (map_index c)(k := None)\<rparr>)"
    unfolding lru_inv_def
  proof (intro conjI allI)
    show "distinct (map fst (cache (c\<lparr>cache := erase it (cache c), map_index := (map_index c)(k := None)\<rparr>)))"
      using assms by (simp add: lru_inv_def erase_def distinct_map_filter)
    show "distinct (keys_of (c\<lparr>cache := erase it (cache c), map_index := (map_index c)(k := None)\<rparr>))"
      using assms by (simp add: lru_inv_def erase_def keys_of_def distinct_map_filter)
    have "length (erase it (cache c)) \<le> length (cache c)"
      by (simp add: erase_def)
    then show "length (cache (c\<lparr>cache := erase it (cache c), map_index := (map_index c)(k := None)\<rparr>))
          \<le> cap (c\<lparr>cache := erase it (cache c), map_index := (map_index c)(k := None)\<rparr>)"
      using assms by (simp add: lru_inv_def)
  next
    fix k' it'
    show "(map_index (c\<lparr>cache := erase it (cache c), map_index := (map_index c)(k := None)\<rparr>) k' = Some it')
        = (\<exists>v. (it', k', v) \<in> set (cache (c\<lparr>cache := erase it (cache c), map_index := (map_index c)(k := None)\<rparr>)))"
    proof (cases "k' = k")
      case True
      then show ?thesis using other by (auto simp: erase_def)
    next
      case False
      have "\<And>v'. (it, k', v') \<notin> set (cache c)"
        using eq_key_imp_eq_value[OF d1 mem] False by blast
      then have "(\<exists>v. (it', k', v) \<in> set (cache c)) = (\<exists>v. (it', k', v) \<in> set (erase it (cache c)))"
        by (auto simp: erase_def)
      then show ?thesis using coh[of k' it'] False by simp
    qed
  qed
  then show ?thesis by (simp add: remove_def Some v)
qed

lemma lru_inv_put:
  assumes "lru_inv c"
  shows "\<exists>c'. put c k w = Inr c' \<and> lru_inv c' \<and> cap c' = cap c"
proof (cases "map_index c k")
  case (Some it)
  from inv_deref[OF assms Some] obtain v where v: "map_of (cache c) it = Some (k, v)"
    by blast
  from lru_inv_splice[OF assms Some v, of w] show ?thesis
    by (simp add: put_def Some v)
next
  case None
  have coh: "\<And>k' it'. map_index c k' = Some it' \<longleftrightarrow> (\<exists>v. (it', k', v) \<in> set (cache c))"
    using assms by (simp add: lru_inv_def)
  have d1: "distinct (map fst (cache c))" and d2: "distinct (keys_of c)" and len: "length (cache c) \<le> cap c"
    using assms by (auto simp: lru_inv_def)
  have nokey: "\<And>i v. (i, k, v) \<notin> set (cache c)"
    using coh[of k] None by auto
  define it where "it = new_iter (cache c)"
  have fresh: "\<And>e. (it, e) \<notin> set (cache c)"
    by (simp add: it_def new_iter_fresh)
  define c1 where "c1 = emplace_new c k w"
  have c1: "c1 = c\<lparr>cache := (it, (k, w)) # cache c, map_index := (map_index c)(k \<mapsto> it)\<rparr>"
    by (simp add: c1_def emplace_new_def it_def Let_def)
  have c1_d1: "distinct (map fst (cache c1))"
    using d1 fresh by (auto simp: c1 image_iff)
  have c1_d2: "distinct (keys_of c1)"
    using d2 nokey by (auto simp: c1 keys_of_def image_iff)
  have c1_coh: "\<And>k' it'. map_index c1 k' = Some it' \<longleftrightarrow> (\<exists>v. (it', k', v) \<in> set (cache c1))"
    using coh nokey fresh by (auto simp: c1)
  show ?thesis
  proof (cases "length (cache c1) > cap c1")
    case False
    then have "lru_inv c1"
      unfolding lru_inv_def using c1_d1 c1_d2 c1_coh by auto
    then show ?thesis using False by (simp add: put_def None c1_def[symmetric]) (simp add: c1)
  next
    case True
    have ne: "cache c1 \<noteq> []" by (simp add: c1)
    obtain j kl vl where l: "last (cache c1) = (j, kl, vl)"
      by (cases "last (cache c1)") auto
    have split: "cache c1 = butlast (cache c1) @ [(j, kl, vl)]"
      using append_butlast_last_id[OF ne] l by simp
    define c2 where "c2 = c1\<lparr>cache := butlast (cache c1), map_index := (map_index c1)(kl := None)\<rparr>"
    have ev: "evict_back c1 = Inr c2"
      using ne l by (simp add: evict_back_def c2_def)
    have bd1: "distinct (map fst (butlast (cache c1)))"
      using distinct_butlast[OF c1_d1] by (simp add: map_butlast)
    have bd2: "distinct (map (\<lambda>n. fst (snd n)) (butlast (cache c1)))"
      using distinct_butlast[OF c1_d2] by (simp add: keys_of_def map_butlast)
    have notin: "\<And>i v. (i, kl, v) \<notin> set (butlast (cache c1))"
    proof
      fix i v assume "(i, kl, v) \<in> set (butlast (cache c1))"
      then have "kl \<in> set (map (\<lambda>n. fst (snd n)) (butlast (cache c1)))" by force
      moreover have "distinct (map (\<lambda>n. fst (snd n)) (butlast (cache c1)) @ [kl])"
      proof -
      have "keys_of c1 = map (\<lambda>n. fst (snd n)) (butlast (cache c1) @ [(j, kl, vl)])"
        unfolding keys_of_def using split by simp
      then show ?thesis using c1_d2 by simp
    qed
      ultimately show False by simp
    qed
    have sets: "set (cache c1) = insert (j, kl, vl) (set (butlast (cache c1)))"
    proof -
      have "set (cache c1) = set (butlast (cache c1) @ [(j, kl, vl)])"
        using split by simp
      then show ?thesis by simp
    qed
    have c2_coh: "\<And>k' it'. map_index c2 k' = Some it' \<longleftrightarrow> (\<exists>v. (it', k', v) \<in> set (cache c2))"
      using c1_coh notin sets by (auto simp: c2_def)
    have "length (cache c1) = Suc (length (cache c))" by (simp add: c1)
    then have "length (cache c2) \<le> cap c2"
      using len by (simp add: c2_def c1)
    then have "lru_inv c2"
      unfolding lru_inv_def using bd1 bd2 c2_coh by (auto simp: c2_def keys_of_def)
    then show ?thesis using True ev by (simp add: put_def None c1_def[symmetric]) (simp add: c2_def c1)
  qed
qed

lemma lru_inv_run:
  assumes "lru_inv c"
  shows "\<exists>c'. run c ops = Inr c' \<and> lru_inv c' \<and> cap c' = cap c"
  using assms
proof (induction ops arbitrary: c)
  case Nil
  then show ?case by simp
next
  case (Cons x xs)
  have "\<exists>c1. apply_op c x = Inr c1 \<and> lru_inv c1 \<and> cap c1 = cap c"
  proof (cases x)
    case (Get k)
    then show ?thesis using lru_inv_get[OF Cons.prems, of k] by auto
  next
    case (Put k v)
    then show ?thesis using lru_inv_put[OF Cons.prems, of k v] by auto
  next
    case (Remove k)
    then show ?thesis using lru_inv_remove[OF Cons.prems, of k] by auto
  qed
  then obtain c1 where c1: "apply_op c x = Inr c1" "lru_inv c1" "cap c1 = cap c"
    by blast
  from Cons.IH[OF c1(2)] c1 show ?case by auto
qed

lemma distinct_set_singleton:
  assumes "distinct xs" "set xs = {x}"
  shows "xs = [x]"
proof (cases xs)
  case Nil
  then show ?thesis using assms by simp
next
  case (Cons a ys)
  with assms have "a = x" "set ys \<subseteq> {x}" "a \<notin> set ys" by auto
  then have "ys = []" by (cases ys) auto
  then show ?thesis using Cons \<open>a = x\<close> by simp
qed

section \<open>Structural invariants\<close>

text \<open>
  Claim C3. Start from a cache built by the constructor with any capacity \<open>n\<close> and call
  \<open>get\<close>, \<open>put\<close> and \<open>remove\<close> in any order with any arguments. Every call returns
  (it never uses a dangling iterator), and after the calls the keys held in the recency
  list are pairwise distinct and the list has at most \<open>n\<close> entries. The statement is
  about every sequence, hence about every prefix of a sequence: it holds after each
  call.
\<close>

theorem cache_keys_distinct_size_bounded:
  "\<exists>c. run (LRUCache n) ops = Inr c \<and> cap c = n \<and>
       distinct (keys_of c) \<and> length (cache c) \<le> n"
  using lru_inv_run[OF lru_inv_LRUCache, of n ops]
  by (auto simp: lru_inv_def LRUCache_def)

theorem cache_keys_distinct_size_bounded_witness:
  "run (LRUCache 1) [Put ''a'' ''1'', Get ''a'', Put ''b'' ''2'', Remove ''a'', Put ''b'' ''3'']
     = Inr \<lparr>cap = 1, cache = [(1, ''b'', ''3'')], map_index = [''b'' \<mapsto> 1]\<rparr> \<and>
   distinct (keys_of \<lparr>cap = 1, cache = [(1, ''b'', ''3'')], map_index = [''b'' \<mapsto> 1]\<rparr>) \<and>
   length (cache \<lparr>cap = 1, cache = [(1, ''b'', ''3'')], map_index = [''b'' \<mapsto> 1]\<rparr>) \<le> 1"
proof -
  have e: "run (LRUCache 1) [Put ''a'' ''1'', Get ''a'', Put ''b'' ''2'', Remove ''a'', Put ''b'' ''3'']
     = Inr \<lparr>cap = 1, cache = [(1, ''b'', ''3'')], map_index = [''b'' \<mapsto> 1]\<rparr>"
    by (simp add: LRUCache_def put_def get_def remove_def emplace_new_def evict_back_def
        splice_begin_def erase_def Let_def fun_upd_twist)
  from cache_keys_distinct_size_bounded[of 1 "[Put ''a'' ''1'', Get ''a'', Put ''b'' ''2'', Remove ''a'', Put ''b'' ''3'']"]
  show ?thesis unfolding e by simp
qed

text \<open>
  Claim C9. After any sequence of \<open>get\<close>, \<open>put\<close> and \<open>remove\<close> calls on a constructed
  cache, the keys of the index are exactly the keys of the recency list, and an index
  entry \<open>key \<mapsto> it\<close> designates a node of the list that carries this key and is the only
  node of the list carrying it.
\<close>

theorem index_list_coherent:
  "\<exists>c. run (LRUCache n) ops = Inr c \<and>
       dom (map_index c) = set (keys_of c) \<and>
       (\<forall>k it. map_index c k = Some it \<longrightarrow>
          (\<exists>v. map_of (cache c) it = Some (k, v) \<and>
               filter (\<lambda>nd. fst (snd nd) = k) (cache c) = [(it, k, v)]))"
proof -
  from lru_inv_run[OF lru_inv_LRUCache, of n ops]
  obtain c where c: "run (LRUCache n) ops = Inr c" and inv: "lru_inv c"
    by blast
  have coh: "\<And>k it. map_index c k = Some it \<longleftrightarrow> (\<exists>v. (it, k, v) \<in> set (cache c))"
    using inv by (simp add: lru_inv_def)
  have "dom (map_index c) = set (keys_of c)"
  proof (intro set_eqI iffI)
    fix k assume "k \<in> dom (map_index c)"
    then obtain it where "map_index c k = Some it" by auto
    with coh obtain v where "(it, k, v) \<in> set (cache c)" by blast
    then show "k \<in> set (keys_of c)" by (force simp: keys_of_def)
  next
    fix k assume "k \<in> set (keys_of c)"
    then obtain it v where "(it, k, v) \<in> set (cache c)" by (auto simp: keys_of_def)
    with coh have "map_index c k = Some it" by blast
    then show "k \<in> dom (map_index c)" by auto
  qed
  moreover have "\<exists>v. map_of (cache c) it = Some (k, v) \<and>
               filter (\<lambda>nd. fst (snd nd) = k) (cache c) = [(it, k, v)]"
    if m: "map_index c k = Some it" for k it
  proof -
    from inv_deref[OF inv m] obtain v where v: "map_of (cache c) it = Some (k, v)"
      and mem: "(it, k, v) \<in> set (cache c)" by blast
    have d: "distinct (cache c)"
      using inv by (simp add: lru_inv_def distinct_map)
    have "filter (\<lambda>nd. fst (snd nd) = k) (cache c) = [(it, k, v)]"
    proof -
      have 1: "set (filter (\<lambda>nd. fst (snd nd) = k) (cache c)) = {(it, k, v)}"
      proof (intro set_eqI iffI)
        fix nd assume "nd \<in> set (filter (\<lambda>nd. fst (snd nd) = k) (cache c))"
        then have *: "nd \<in> set (cache c)" "fst (snd nd) = k" by simp_all
        obtain i k' w where "nd = (i, k', w)" by (cases nd) auto
        with * have nd: "nd = (i, k, w)" "(i, k, w) \<in> set (cache c)" by auto
        from inv_key_unique[OF inv nd(2) mem] nd(1) show "nd \<in> {(it, k, v)}" by simp
      next
        fix nd assume "nd \<in> {(it, k, v)}"
        then show "nd \<in> set (filter (\<lambda>nd. fst (snd nd) = k) (cache c))" using mem by simp
      qed
      have 2: "distinct (filter (\<lambda>nd. fst (snd nd) = k) (cache c))"
        using d by simp
      show ?thesis
        by (rule distinct_set_singleton[OF 2 1])
    qed
    with v show ?thesis by blast
  qed
  ultimately show ?thesis using c by blast
qed

theorem index_list_coherent_witness:
  "run (LRUCache 2) [Put ''a'' ''1'', Put ''b'' ''2'', Get ''a'']
     = Inr \<lparr>cap = 2, cache = [(0, ''a'', ''1''), (1, ''b'', ''2'')],
            map_index = [''a'' \<mapsto> 0, ''b'' \<mapsto> 1]\<rparr> \<and>
   dom [''a'' \<mapsto> 0::nat, ''b'' \<mapsto> 1] = set [''a'', ''b''] \<and>
   [''a'' \<mapsto> 0::nat, ''b'' \<mapsto> 1] ''a'' = Some 0 \<and>
   map_of [(0::nat, ''a'', ''1''), (1, ''b'', ''2'')] 0 = Some (''a'', ''1'') \<and>
   filter (\<lambda>nd. fst (snd nd) = ''a'') [(0::nat, ''a'', ''1''), (1, ''b'', ''2'')] = [(0, ''a'', ''1'')]"
proof -
  have e: "run (LRUCache 2) [Put ''a'' ''1'', Put ''b'' ''2'', Get ''a'']
     = Inr \<lparr>cap = 2, cache = [(0, ''a'', ''1''), (1, ''b'', ''2'')],
            map_index = [''a'' \<mapsto> 0, ''b'' \<mapsto> 1]\<rparr>"
    by (simp add: LRUCache_def put_def get_def emplace_new_def evict_back_def
        splice_begin_def erase_def Let_def)
  from index_list_coherent[of 2 "[Put ''a'' ''1'', Put ''b'' ''2'', Get ''a'']"]
  have "dom [''a'' \<mapsto> 0::nat, ''b'' \<mapsto> 1] = set [''a'', ''b''] \<and>
     (\<forall>k it. [''a'' \<mapsto> 0::nat, ''b'' \<mapsto> 1] k = Some it \<longrightarrow>
          (\<exists>v. map_of [(0::nat, ''a'', ''1''), (1, ''b'', ''2'')] it = Some (k, v) \<and>
               filter (\<lambda>nd. fst (snd nd) = k) [(0::nat, ''a'', ''1''), (1, ''b'', ''2'')] = [(it, k, v)]))"
    unfolding e by (simp add: keys_of_def)
  then have "dom [''a'' \<mapsto> 0::nat, ''b'' \<mapsto> 1] = set [''a'', ''b'']"
    and "\<exists>v. map_of [(0::nat, ''a'', ''1''), (1, ''b'', ''2'')] 0 = Some (''a'', v) \<and>
               filter (\<lambda>nd. fst (snd nd) = ''a'') [(0::nat, ''a'', ''1''), (1, ''b'', ''2'')] = [(0, ''a'', v)]"
    by simp_all
  with e show ?thesis by simp
qed

section \<open>Single operations\<close>

lemma inv_absent_key:
  assumes "lru_inv c"
  shows "map_index c k = None \<longleftrightarrow> k \<notin> set (keys_of c)"
proof -
  have coh: "\<And>it. map_index c k = Some it \<longleftrightarrow> (\<exists>v. (it, k, v) \<in> set (cache c))"
    using assms by (simp add: lru_inv_def)
  show ?thesis
  proof
    assume n: "map_index c k = None"
    show "k \<notin> set (keys_of c)"
    proof
      assume "k \<in> set (keys_of c)"
      then obtain it v where "(it, k, v) \<in> set (cache c)" by (auto simp: keys_of_def)
      with coh have "map_index c k = Some it" by blast
      with n show False by simp
    qed
  next
    assume n: "k \<notin> set (keys_of c)"
    show "map_index c k = None"
    proof (cases "map_index c k")
      case None
      then show ?thesis .
    next
      case (Some it)
      with coh obtain v where "(it, k, v) \<in> set (cache c)" by blast
      then have "k \<in> set (keys_of c)" by (force simp: keys_of_def)
      with n show ?thesis by simp
    qed
  qed
qed

text \<open>
  Claim C8. \<open>get\<close> on a key that the cache does not hold reports a miss (\<open>None\<close>, the
  \<open>false\<close> of the source, with the out-parameter untouched) and returns the cache exactly
  as it was: the same capacity, the same nodes with the same pairs in the same order, the
  same index. A key is absent when the index has no entry for it, which is what the code
  tests; in a cache that satisfies the invariant this is the same as no node of the list
  carrying the key.
\<close>

theorem get_absent_key_unchanged:
  assumes "map_index c k = None \<or> (lru_inv c \<and> k \<notin> set (keys_of c))"
  shows "get c k = Inr (None, c)"
proof -
  from assms have "map_index c k = None"
    using inv_absent_key[of c k] by blast
  then show ?thesis by (simp add: get_def)
qed

theorem get_absent_key_unchanged_witness:
  "run (LRUCache 2) [Put ''a'' ''1'', Put ''b'' ''2'']
     = Inr \<lparr>cap = 2, cache = [(1, ''b'', ''2''), (0, ''a'', ''1'')],
            map_index = [''a'' \<mapsto> 0, ''b'' \<mapsto> 1]\<rparr> \<and>
   [''a'' \<mapsto> 0::nat, ''b'' \<mapsto> 1] ''c'' = None \<and>
   get \<lparr>cap = 2, cache = [(1, ''b'', ''2''), (0, ''a'', ''1'')],
        map_index = [''a'' \<mapsto> 0, ''b'' \<mapsto> 1]\<rparr> ''c''
     = Inr (None, \<lparr>cap = 2, cache = [(1, ''b'', ''2''), (0, ''a'', ''1'')],
                   map_index = [''a'' \<mapsto> 0, ''b'' \<mapsto> 1]\<rparr>)"
proof -
  have e: "run (LRUCache 2) [Put ''a'' ''1'', Put ''b'' ''2'']
     = Inr \<lparr>cap = 2, cache = [(1, ''b'', ''2''), (0, ''a'', ''1'')],
            map_index = [''a'' \<mapsto> 0, ''b'' \<mapsto> 1]\<rparr>"
    by (simp add: LRUCache_def put_def emplace_new_def evict_back_def Let_def)
  have n: "map_index \<lparr>cap = 2, cache = [(1, ''b'', ''2''), (0, ''a'', ''1'')],
            map_index = [''a'' \<mapsto> 0, ''b'' \<mapsto> 1]\<rparr> ''c'' = None"
    by simp
  from get_absent_key_unchanged[OF disjI1, OF n] e show ?thesis by simp
qed

lemma run_zero_capacity: "run (LRUCache 0) ops = Inr (LRUCache 0)"
proof (induction ops)
  case Nil
  then show ?case by simp
next
  case (Cons x xs)
  have "apply_op (LRUCache 0) x = Inr (LRUCache 0)"
    by (cases x)
      (simp_all add: LRUCache_def get_def put_def remove_def emplace_new_def evict_back_def Let_def)
  with Cons show ?case by simp
qed

text \<open>
  Claim C10. A cache constructed with capacity 0 is empty after any sequence of calls.
  On it, \<open>put\<close> of any key first links one node carrying (key, value) and enters the key
  in the index, then finds one entry above a capacity of zero and evicts the last node,
  which is that same node, erasing the key just entered: the cache is again the empty
  cache, and \<open>get\<close> of the key reports a miss.
\<close>

theorem zero_capacity_put_evicts_itself:
  "\<exists>c. run (LRUCache 0) ops = Inr c \<and> cache c = [] \<and>
       cache (emplace_new c k v) = [(0, k, v)] \<and>
       map_index (emplace_new c k v) k = Some 0 \<and>
       evict_back (emplace_new c k v) = Inr c \<and>
       put c k v = Inr c \<and>
       get c k = Inr (None, c)"
  by (simp add: run_zero_capacity)
    (simp add: LRUCache_def get_def put_def emplace_new_def evict_back_def Let_def)

theorem zero_capacity_put_evicts_itself_witness:
  "run (LRUCache 0) [Put ''a'' ''1''] = Inr (LRUCache 0) \<and>
   cache (emplace_new (LRUCache 0) ''k'' ''v'') = [(0, ''k'', ''v'')] \<and>
   evict_back (emplace_new (LRUCache 0) ''k'' ''v'') = Inr (LRUCache 0) \<and>
   put (LRUCache 0) ''k'' ''v'' = Inr (LRUCache 0) \<and>
   get (LRUCache 0) ''k'' = Inr (None, LRUCache 0)"
proof -
  have e: "run (LRUCache 0) [Put ''a'' ''1''] = Inr (LRUCache 0)"
    by (simp add: LRUCache_def put_def emplace_new_def evict_back_def Let_def)
  from zero_capacity_put_evicts_itself[of "[Put ''a'' ''1'']" "''k''" "''v''"] e
  show ?thesis by simp
qed

text \<open>
  Claim C6. Capacity 2, empty cache: after \<open>put(a,1); put(b,2)\<close> the list is b, a;
  \<open>put(c,3)\<close> evicts a; \<open>get(b)\<close> finds 2 and moves b to the head; \<open>put(d,4)\<close> evicts
  c, and the cache holds exactly the keys b and d.
\<close>

theorem eviction_example:
  "\<exists>c2 c3 c4 c5.
     run (LRUCache 2) [Put ''a'' ''1'', Put ''b'' ''2''] = Inr c2 \<and>
     keys_of c2 = [''b'', ''a''] \<and>
     put c2 ''c'' ''3'' = Inr c3 \<and>
     keys_of c3 = [''c'', ''b''] \<and> map_index c3 ''a'' = None \<and>
     get c3 ''b'' = Inr (Some ''2'', c4) \<and>
     keys_of c4 = [''b'', ''c''] \<and>
     put c4 ''d'' ''4'' = Inr c5 \<and>
     keys_of c5 = [''d'', ''b''] \<and> map_index c5 ''c'' = None \<and>
     set (keys_of c5) = {''b'', ''d''} \<and> dom (map_index c5) = {''b'', ''d''} \<and>
     map snd (cache c5) = [(''d'', ''4''), (''b'', ''2'')]"
proof -
  define c2 where "c2 = \<lparr>cap = 2, cache = [(1, ''b'', ''2''), (0, ''a'', ''1'')],
            map_index = [''a'' \<mapsto> 0, ''b'' \<mapsto> 1]\<rparr>"
  define c3 where "c3 = \<lparr>cap = 2, cache = [(2, ''c'', ''3''), (1, ''b'', ''2'')],
            map_index = [''b'' \<mapsto> 1, ''c'' \<mapsto> 2]\<rparr>"
  define c4 where "c4 = \<lparr>cap = 2, cache = [(1, ''b'', ''2''), (2, ''c'', ''3'')],
            map_index = [''b'' \<mapsto> 1, ''c'' \<mapsto> 2]\<rparr>"
  define c5 where "c5 = \<lparr>cap = 2, cache = [(3, ''d'', ''4''), (1, ''b'', ''2'')],
            map_index = [''b'' \<mapsto> 1, ''d'' \<mapsto> 3]\<rparr>"
  have 2: "run (LRUCache 2) [Put ''a'' ''1'', Put ''b'' ''2''] = Inr c2"
    by (simp add: c2_def LRUCache_def put_def emplace_new_def evict_back_def Let_def)
  have 3: "put c2 ''c'' ''3'' = Inr c3"
    by (simp add: c2_def c3_def put_def emplace_new_def evict_back_def Let_def eval_nat_numeral)
  have 4: "get c3 ''b'' = Inr (Some ''2'', c4)"
    by (simp add: c3_def c4_def get_def splice_begin_def erase_def)
  have 5: "put c4 ''d'' ''4'' = Inr c5"
    by (simp add: c4_def c5_def put_def emplace_new_def evict_back_def Let_def eval_nat_numeral)
  have k2: "keys_of c2 = [''b'', ''a'']"
    by (simp add: keys_of_def c2_def)
  have k3: "keys_of c3 = [''c'', ''b'']" "map_index c3 ''a'' = None"
    by (simp_all add: keys_of_def c3_def)
  have k4: "keys_of c4 = [''b'', ''c'']"
    by (simp add: keys_of_def c4_def)
  have k5: "keys_of c5 = [''d'', ''b'']" "map_index c5 ''c'' = None"
     "map snd (cache c5) = [(''d'', ''4''), (''b'', ''2'')]"
    by (simp_all add: keys_of_def c5_def)
  have s5: "set (keys_of c5) = {''b'', ''d''}"
    unfolding k5 by (simp add: insert_commute)
  have d5: "dom (map_index c5) = {''b'', ''d''}"
    by (simp add: c5_def insert_commute)
  show ?thesis
    apply (rule exI[of _ c2], rule exI[of _ c3], rule exI[of _ c4], rule exI[of _ c5])
    apply (intro conjI)
    by (fact 2 3 4 5 k2 k3 k4 k5 s5 d5)+
qed

section \<open>The coordination of cache and backing store\<close>

text \<open>
  Every state that the server reaches from \<open>main\<close> holds a cache that satisfies the
  invariant and has capacity 1000, whatever the requests and whatever the database does.
  The theorems below assume no more of the cache than that.
\<close>

lemma serve_inv:
  assumes "lru_inv (srv_cache s)"
  shows "lru_inv (srv_cache (serve s r)) \<and> cap (srv_cache (serve s r)) = cap (srv_cache s)"
proof -
  obtain pq res q where r: "r = (pq, res, q)" by (cases r) auto
  show ?thesis
  proof (cases q)
    case (PUT k v)
    from lru_inv_put[OF assms, of k v] show ?thesis
      by (auto simp: r PUT svr_Put_def assms split: sum.splits)
  next
    case (GET k)
    from lru_inv_get[OF assms, of k] obtain x c1 where
      g: "get (srv_cache s) k = Inr (x, c1)" "lru_inv c1" "cap c1 = cap (srv_cache s)"
      by blast
    have "lru_inv c2 \<and> cap c2 = cap (srv_cache s)" if "put c1 k w = Inr c2" for w c2
      using lru_inv_put[OF g(2), of k w] g(3) that by auto
    with g show ?thesis
      by (auto simp: r GET svr_Get_def Let_def split: sum.splits option.splits)
  next
    case (DELETE k)
    from lru_inv_remove[OF assms, of k] show ?thesis
      by (auto simp: r DELETE svr_Delete_def assms split: sum.splits)
  qed
qed

lemma serve_all_inv:
  "lru_inv (srv_cache (serve_all (main_init d) rs)) \<and>
   cap (srv_cache (serve_all (main_init d) rs)) = 1000"
proof (induction rs rule: rev_induct)
  case Nil
  show ?case by (simp add: serve_all_def main_init_def lru_inv_LRUCache) (simp add: LRUCache_def)
next
  case (snoc r rs)
  then show ?case using serve_inv[of "serve_all (main_init d) rs" r]
    by (simp add: serve_all_def)
qed

lemma put_front:
  assumes inv: "lru_inv c" and pos: "0 < cap c"
  shows "\<exists>c' it rest. put c k v = Inr c' \<and> cache c' = (it, k, v) # rest \<and>
           map_index c' k = Some it \<and> lru_inv c' \<and> cap c' = cap c"
proof -
  from lru_inv_put[OF inv, of k v] obtain c' where
    c': "put c k v = Inr c'" "lru_inv c'" "cap c' = cap c" by blast
  have "\<exists>it rest. cache c' = (it, k, v) # rest \<and> map_index c' k = Some it"
  proof (cases "map_index c k")
    case (Some it)
    from inv_deref[OF inv Some] obtain w where w: "map_of (cache c) it = Some (k, w)"
      by blast
    with Some c'(1) have "c' = c\<lparr>cache := splice_begin it (k, v) (cache c)\<rparr>"
      by (simp add: put_def)
    then show ?thesis using Some by (simp add: splice_begin_def)
  next
    case None
    define it where "it = new_iter (cache c)"
    define c1 where "c1 = emplace_new c k v"
    have c1: "c1 = c\<lparr>cache := (it, (k, v)) # cache c, map_index := (map_index c)(k \<mapsto> it)\<rparr>"
      by (simp add: c1_def emplace_new_def it_def Let_def)
    show ?thesis
    proof (cases "length (cache c1) > cap c1")
      case False
      with None c'(1) have "c' = c1" by (simp add: put_def c1_def[symmetric])
      then show ?thesis by (simp add: c1)
    next
      case True
      with pos have ne: "cache c \<noteq> []" by (auto simp: c1)
      have "k \<notin> set (keys_of c)"
        using inv_absent_key[OF inv, of k] None by simp
      moreover have "last (cache c) \<in> set (cache c)"
        using ne by simp
      ultimately have lk: "fst (snd (last (cache c))) \<noteq> k"
        by (auto simp: keys_of_def)
      from True None c'(1) have "evict_back c1 = Inr c'"
        by (simp add: put_def c1_def[symmetric])
      then have "c' = c1\<lparr>cache := butlast (cache c1),
          map_index := (map_index c1)(fst (snd (last (cache c1))) := None)\<rparr>"
        by (simp add: evict_back_def c1 Let_def)
      then show ?thesis using ne lk by (simp add: c1)
    qed
  qed
  with c' show ?thesis by blast
qed

lemma get_front:
  assumes inv: "lru_inv c" and hd: "cache c = (it, k, v) # rest" and ix: "map_index c k = Some it"
  shows "get c k = Inr (Some v, c)"
proof -
  from inv hd have "it \<notin> fst ` set rest"
    by (simp add: lru_inv_def)
  then have "filter (\<lambda>n. fst n \<noteq> it) rest = rest"
    by (auto simp: filter_id_conv)
  then have "splice_begin it (k, v) (cache c) = cache c"
    by (simp add: splice_begin_def erase_def hd)
  then show ?thesis
    by (simp add: get_def ix hd)
qed

lemma svr_Get_hit:
  assumes "get (srv_cache s) k = Inr (Some v, c)"
  shows "svr_Get pq k res s =
    (Inr (set_content (''CACHE HIT: '' @ v) ''text/plain'' res),
     s\<lparr>srv_cache := c, cache_hits := cache_hits s + 1\<rparr>)"
  using assms by (simp add: svr_Get_def)

lemma svr_Get_fill:
  assumes "map_index (srv_cache s) k = None" "kv (srv_db s) k = Some v"
    "put (srv_cache s) k v = Inr c'"
  shows "svr_Get Pq_ok k res s =
    (Inr (set_content (''DB HIT: '' @ v) ''text/plain'' res),
     s\<lparr>srv_cache := c', cache_misses := cache_misses s + 1\<rparr>)"
  using assms by (simp add: svr_Get_def get_def db_get_def)


lemma fill_general:
  assumes "lru_inv (srv_cache s)" and "0 < cap (srv_cache s)"
    and "map_index (srv_cache s) k = None" and "kv (srv_db s) k = Some v"
  shows "\<exists>c'. put (srv_cache s) k v = Inr c' \<and>
     svr_Get Pq_ok k res s =
       (Inr (set_content (''DB HIT: '' @ v) ''text/plain'' res),
        s\<lparr>srv_cache := c', cache_misses := cache_misses s + 1\<rparr>) \<and>
     (\<exists>it rest. cache c' = (it, k, v) # rest \<and> map_index c' k = Some it) \<and>
     (\<forall>pq res'.
        svr_Get pq k res' (s\<lparr>srv_cache := c', cache_misses := cache_misses s + 1\<rparr>) =
          (Inr (set_content (''CACHE HIT: '' @ v) ''text/plain'' res'),
           s\<lparr>srv_cache := c', cache_misses := cache_misses s + 1,
              cache_hits := cache_hits s + 1\<rparr>))"
proof -
  from put_front[OF assms(1,2), of k v] obtain c' it rest where
    c': "put (srv_cache s) k v = Inr c'" "cache c' = (it, k, v) # rest"
       "map_index c' k = Some it" "lru_inv c'"
    by blast
  from get_front[OF c'(4) c'(2) c'(3)] have g: "get c' k = Inr (Some v, c')" .
  have 1: "svr_Get Pq_ok k res s =
       (Inr (set_content (''DB HIT: '' @ v) ''text/plain'' res),
        s\<lparr>srv_cache := c', cache_misses := cache_misses s + 1\<rparr>)"
    by (rule svr_Get_fill[OF assms(3,4) c'(1)])
  have 2: "svr_Get pq k res' (s\<lparr>srv_cache := c', cache_misses := cache_misses s + 1\<rparr>) =
          (Inr (set_content (''CACHE HIT: '' @ v) ''text/plain'' res'),
           s\<lparr>srv_cache := c', cache_misses := cache_misses s + 1,
              cache_hits := cache_hits s + 1\<rparr>)" for pq res'
    using svr_Get_hit[of "s\<lparr>srv_cache := c', cache_misses := cache_misses s + 1\<rparr>" k v c' pq res'] g
    by simp
  from c'(1,2,3) 1 2 show ?thesis by blast
qed



text \<open>
  Claim C4. The state is one the server reaches from \<open>main\<close> (or any state whose cache
  satisfies the invariant and has room for at least one entry). The cache has no entry
  for \<open>k\<close>, the table holds \<open>k \<mapsto> v\<close> and the query succeeds. Then the \<open>GET\<close> handler
  answers \<open>DB HIT: v\<close>, adds one to \<open>cache_misses\<close> (and leaves \<open>cache_hits\<close> and the
  database as they were), and the cache it leaves is the result of \<open>put(k, v)\<close>, with the
  node carrying \<open>(k, v)\<close> at the head and indexed under \<open>k\<close>. A \<open>GET\<close> of \<open>k\<close> on that
  state answers \<open>CACHE HIT: v\<close> and adds one to \<open>cache_hits\<close>, whatever the database
  connection would do.
\<close>

theorem read_through_fill:
  assumes "(lru_inv (srv_cache s) \<and> 0 < cap (srv_cache s)) \<or> s = serve_all (main_init d) rs"
    and "map_index (srv_cache s) k = None" and "kv (srv_db s) k = Some v"
  shows "\<exists>c'. put (srv_cache s) k v = Inr c' \<and>
     svr_Get Pq_ok k res s =
       (Inr (set_content (''DB HIT: '' @ v) ''text/plain'' res),
        s\<lparr>srv_cache := c', cache_misses := cache_misses s + 1\<rparr>) \<and>
     (\<exists>it rest. cache c' = (it, k, v) # rest \<and> map_index c' k = Some it) \<and>
     (\<forall>pq res'.
        svr_Get pq k res' (s\<lparr>srv_cache := c', cache_misses := cache_misses s + 1\<rparr>) =
          (Inr (set_content (''CACHE HIT: '' @ v) ''text/plain'' res'),
           s\<lparr>srv_cache := c', cache_misses := cache_misses s + 1,
              cache_hits := cache_hits s + 1\<rparr>))"
proof -
  from assms(1) have "lru_inv (srv_cache s)" "0 < cap (srv_cache s)"
    using serve_all_inv[of d rs] by auto
  from fill_general[OF this assms(2,3)] show ?thesis .
qed

theorem read_through_fill_witness:
  "serve_all (main_init \<lparr>connStr = ''dbname=kvdb'', kv = [''k'' \<mapsto> ''v'']\<rparr>)
      [(Pq_ok, \<lparr>status = 200, body = [], content_type = []\<rparr>, GET ''x'')] =
     \<lparr>srv_db = \<lparr>connStr = ''dbname=kvdb'', kv = [''k'' \<mapsto> ''v'']\<rparr>,
      srv_cache = LRUCache 1000, cache_hits = 0, cache_misses = 1\<rparr> \<and>
   map_index (LRUCache 1000) ''k'' = None \<and>
   [''k'' \<mapsto> ''v''] ''k'' = Some ''v'' \<and>
   svr_Get Pq_ok ''k'' \<lparr>status = 200, body = [], content_type = []\<rparr>
       \<lparr>srv_db = \<lparr>connStr = ''dbname=kvdb'', kv = [''k'' \<mapsto> ''v'']\<rparr>,
        srv_cache = LRUCache 1000, cache_hits = 0, cache_misses = 1\<rparr> =
     (Inr \<lparr>status = 200, body = ''DB HIT: v'', content_type = ''text/plain''\<rparr>,
      \<lparr>srv_db = \<lparr>connStr = ''dbname=kvdb'', kv = [''k'' \<mapsto> ''v'']\<rparr>,
       srv_cache = \<lparr>cap = 1000, cache = [(0, ''k'', ''v'')], map_index = [''k'' \<mapsto> 0]\<rparr>,
       cache_hits = 0, cache_misses = 2\<rparr>) \<and>
   svr_Get (Pq_throws ''down'') ''k'' \<lparr>status = 200, body = [], content_type = []\<rparr>
       \<lparr>srv_db = \<lparr>connStr = ''dbname=kvdb'', kv = [''k'' \<mapsto> ''v'']\<rparr>,
        srv_cache = \<lparr>cap = 1000, cache = [(0, ''k'', ''v'')], map_index = [''k'' \<mapsto> 0]\<rparr>,
        cache_hits = 0, cache_misses = 2\<rparr> =
     (Inr \<lparr>status = 200, body = ''CACHE HIT: v'', content_type = ''text/plain''\<rparr>,
      \<lparr>srv_db = \<lparr>connStr = ''dbname=kvdb'', kv = [''k'' \<mapsto> ''v'']\<rparr>,
       srv_cache = \<lparr>cap = 1000, cache = [(0, ''k'', ''v'')], map_index = [''k'' \<mapsto> 0]\<rparr>,
       cache_hits = 1, cache_misses = 2\<rparr>)"
proof -
  define d0 where "d0 = \<lparr>connStr = ''dbname=kvdb'', kv = [''k'' \<mapsto> ''v'']\<rparr>"
  define r0 where "r0 = \<lparr>status = 200, body = [], content_type = []\<rparr>"
  define s1 where "s1 = \<lparr>srv_db = d0, srv_cache = LRUCache 1000, cache_hits = 0, cache_misses = 1\<rparr>"
  define c1 where "c1 = \<lparr>cap = 1000, cache = [(0, ''k'', ''v'')], map_index = [''k'' \<mapsto> 0]\<rparr>"
  have r: "serve_all (main_init d0) [(Pq_ok, r0, GET ''x'')] = s1"
    by (simp add: serve_all_def main_init_def s1_def d0_def svr_Get_def get_def db_get_def
        LRUCache_def)
  have h2: "map_index (srv_cache s1) ''k'' = None"
    by (simp add: s1_def LRUCache_def)
  have h3: "kv (srv_db s1) ''k'' = Some ''v''"
    by (simp add: s1_def d0_def)
  have e: "put (srv_cache s1) ''k'' ''v'' = Inr c1"
    by (simp add: s1_def c1_def LRUCache_def put_def emplace_new_def Let_def)
  from read_through_fill[OF disjI2, OF r[symmetric] h2 h3, of r0]
  have "svr_Get Pq_ok ''k'' r0 s1 =
       (Inr (set_content (''DB HIT: '' @ ''v'') ''text/plain'' r0),
        s1\<lparr>srv_cache := c1, cache_misses := cache_misses s1 + 1\<rparr>)"
    and "\<forall>pq res'.
        svr_Get pq ''k'' res' (s1\<lparr>srv_cache := c1, cache_misses := cache_misses s1 + 1\<rparr>) =
          (Inr (set_content (''CACHE HIT: '' @ ''v'') ''text/plain'' res'),
           s1\<lparr>srv_cache := c1, cache_misses := cache_misses s1 + 1,
              cache_hits := cache_hits s1 + 1\<rparr>)"
    unfolding e by simp_all
  from this(1) this(2)[rule_format, of "Pq_throws ''down''" r0] r h2 h3
  show ?thesis
    unfolding s1_def d0_def r0_def c1_def by (simp add: set_content_def LRUCache_def)
qed

text \<open>
  Claim C1. The \<open>PUT\<close> handler writes the database first. When that write throws, the
  handler ends there: the exception is its result, and the state is the one it started
  from, so the cache is exactly as before (in particular, a cache that held no node
  carrying \<open>(k, v)\<close> holds none afterwards) and so are the table and the counters. When
  the write succeeds, the table holds \<open>k \<mapsto> v\<close> and the cache is the result of
  \<open>put(k, v)\<close> on the cache before, which returns on every cache that satisfies the
  invariant.
\<close>

theorem write_through_store_first:
  "svr_Put (Pq_throws msg) k v res s = (Inl (Pqxx_exception msg), s) \<and>
   ((\<forall>it. (it, k, v) \<notin> set (cache (srv_cache s))) \<longrightarrow>
    (\<forall>it. (it, k, v) \<notin> set (cache (srv_cache (snd (svr_Put (Pq_throws msg) k v res s)))))) \<and>
   (lru_inv (srv_cache s) \<longrightarrow>
    (\<exists>c'. put (srv_cache s) k v = Inr c' \<and>
       svr_Put Pq_ok k v res s =
         (Inr (set_content ''PUT OK'' ''text/plain'' res),
          s\<lparr>srv_db := (srv_db s)\<lparr>kv := (kv (srv_db s))(k \<mapsto> v)\<rparr>, srv_cache := c'\<rparr>)))"
proof (intro conjI impI)
  show f: "svr_Put (Pq_throws msg) k v res s = (Inl (Pqxx_exception msg), s)"
    by (simp add: svr_Put_def db_put_def)
  assume "\<forall>it. (it, k, v) \<notin> set (cache (srv_cache s))"
  then show "\<forall>it. (it, k, v) \<notin> set (cache (srv_cache (snd (svr_Put (Pq_throws msg) k v res s))))"
    by (simp add: f)
next
  assume "lru_inv (srv_cache s)"
  from lru_inv_put[OF this, of k v] obtain c' where c': "put (srv_cache s) k v = Inr c'"
    by blast
  then have "svr_Put Pq_ok k v res s =
         (Inr (set_content ''PUT OK'' ''text/plain'' res),
          s\<lparr>srv_db := (srv_db s)\<lparr>kv := (kv (srv_db s))(k \<mapsto> v)\<rparr>, srv_cache := c'\<rparr>)"
    by (simp add: svr_Put_def db_put_def)
  with c' show "\<exists>c'. put (srv_cache s) k v = Inr c' \<and>
       svr_Put Pq_ok k v res s =
         (Inr (set_content ''PUT OK'' ''text/plain'' res),
          s\<lparr>srv_db := (srv_db s)\<lparr>kv := (kv (srv_db s))(k \<mapsto> v)\<rparr>, srv_cache := c'\<rparr>)"
    by blast
qed

theorem write_through_store_first_witness:
  "svr_Put (Pq_throws ''connection lost'') ''k'' ''v'' \<lparr>status = 200, body = [], content_type = []\<rparr>
       (main_init \<lparr>connStr = ''dbname=kvdb'', kv = Map.empty\<rparr>) =
     (Inl (Pqxx_exception ''connection lost''), main_init \<lparr>connStr = ''dbname=kvdb'', kv = Map.empty\<rparr>) \<and>
   cache (srv_cache (snd (svr_Put (Pq_throws ''connection lost'') ''k'' ''v''
       \<lparr>status = 200, body = [], content_type = []\<rparr>
       (main_init \<lparr>connStr = ''dbname=kvdb'', kv = Map.empty\<rparr>)))) = [] \<and>
   lru_inv (srv_cache (main_init \<lparr>connStr = ''dbname=kvdb'', kv = Map.empty\<rparr>)) \<and>
   svr_Put Pq_ok ''k'' ''v'' \<lparr>status = 200, body = [], content_type = []\<rparr>
       (main_init \<lparr>connStr = ''dbname=kvdb'', kv = Map.empty\<rparr>) =
     (Inr \<lparr>status = 200, body = ''PUT OK'', content_type = ''text/plain''\<rparr>,
      \<lparr>srv_db = \<lparr>connStr = ''dbname=kvdb'', kv = [''k'' \<mapsto> ''v'']\<rparr>,
       srv_cache = \<lparr>cap = 1000, cache = [(0, ''k'', ''v'')], map_index = [''k'' \<mapsto> 0]\<rparr>,
       cache_hits = 0, cache_misses = 0\<rparr>)"
proof -
  define s0 where "s0 = main_init \<lparr>connStr = ''dbname=kvdb'', kv = Map.empty\<rparr>"
  define r0 where "r0 = \<lparr>status = 200, body = [], content_type = []\<rparr>"
  have h1: "lru_inv (srv_cache s0)"
    by (simp add: s0_def main_init_def lru_inv_LRUCache)
  have e: "put (srv_cache s0) ''k'' ''v''
      = Inr \<lparr>cap = 1000, cache = [(0, ''k'', ''v'')], map_index = [''k'' \<mapsto> 0]\<rparr>"
    by (simp add: s0_def main_init_def LRUCache_def put_def emplace_new_def Let_def)
  have c0: "cache (srv_cache s0) = []"
    by (simp add: s0_def main_init_def LRUCache_def)
  note w = write_through_store_first[of "''connection lost''" "''k''" "''v''" r0 s0]
  from w have f: "svr_Put (Pq_throws ''connection lost'') ''k'' ''v'' r0 s0 =
     (Inl (Pqxx_exception ''connection lost''), s0)"
    by blast
  from w h1 have "\<exists>c'. put (srv_cache s0) ''k'' ''v'' = Inr c' \<and>
       svr_Put Pq_ok ''k'' ''v'' r0 s0 =
         (Inr (set_content ''PUT OK'' ''text/plain'' r0),
          s0\<lparr>srv_db := (srv_db s0)\<lparr>kv := (kv (srv_db s0))(''k'' \<mapsto> ''v'')\<rparr>, srv_cache := c'\<rparr>)"
    by blast
  then have g: "svr_Put Pq_ok ''k'' ''v'' r0 s0 =
         (Inr (set_content ''PUT OK'' ''text/plain'' r0),
          s0\<lparr>srv_db := (srv_db s0)\<lparr>kv := (kv (srv_db s0))(''k'' \<mapsto> ''v'')\<rparr>,
             srv_cache := \<lparr>cap = 1000, cache = [(0, ''k'', ''v'')], map_index = [''k'' \<mapsto> 0]\<rparr>\<rparr>)"
    unfolding e by simp
  from f g h1 c0 show ?thesis
    unfolding s0_def r0_def by (simp add: main_init_def set_content_def)
qed

section \<open>Least-recently-used eviction\<close>

lemma run_append:
  "run c (xs @ ys) = (case run c xs of Inl e \<Rightarrow> Inl e | Inr c' \<Rightarrow> run c' ys)"
  by (induction xs arbitrary: c) (auto split: sum.splits)

lemma splice_keys:
  assumes inv: "lru_inv c" and ix: "map_index c k = Some it"
  shows "map (\<lambda>n. fst (snd n)) (erase it (cache c)) = removeAll k (keys_of c)"
proof -
  from inv_deref[OF inv ix] obtain w where mem: "(it, k, w) \<in> set (cache c)" by blast
  have d1: "distinct (map fst (cache c))"
    using inv by (simp add: lru_inv_def)
  have same: "fst nd \<noteq> it \<longleftrightarrow> k \<noteq> fst (snd nd)" if "nd \<in> set (cache c)" for nd
  proof -
    obtain i k' v' where nd: "nd = (i, k', v')" by (cases nd) auto
    show ?thesis
    proof (cases "i = it")
      case True
      with that nd have "(it, k', v') \<in> set (cache c)" by simp
      from eq_key_imp_eq_value[OF d1 this mem] True nd show ?thesis by simp
    next
      case False
      have "k' \<noteq> k"
      proof
        assume "k' = k"
        with that nd have "(i, k, v') \<in> set (cache c)" by simp
        from inv_key_unique[OF inv this mem] False show False by simp
      qed
      with False nd show ?thesis by auto
    qed
  qed
  have "erase it (cache c) = filter (\<lambda>nd. k \<noteq> fst (snd nd)) (cache c)"
    unfolding erase_def by (rule filter_cong) (simp_all add: same)
  then show ?thesis
    by (simp add: keys_of_def removeAll_filter_not_eq filter_map comp_def)
qed

lemma put_keys:
  assumes inv: "lru_inv c" and p: "put c k v = Inr c'"
  shows "keys_of c' = take (cap c) (k # removeAll k (keys_of c))"
proof (cases "map_index c k")
  case (Some it)
  from inv_deref[OF inv Some] obtain w where w: "map_of (cache c) it = Some (k, w)"
    by blast
  with Some p have c': "c' = c\<lparr>cache := splice_begin it (k, v) (cache c)\<rparr>"
    by (simp add: put_def)
  have "k \<in> set (keys_of c)"
    using inv_absent_key[OF inv, of k] Some by auto
  then have "length (removeAll k (keys_of c)) < length (keys_of c)"
    by (rule length_removeAll_less)
  moreover have "length (keys_of c) \<le> cap c"
    using inv by (simp add: lru_inv_def keys_of_def)
  ultimately have "length (k # removeAll k (keys_of c)) \<le> cap c" by simp
  then have "take (cap c) (k # removeAll k (keys_of c)) = k # removeAll k (keys_of c)"
    by (rule take_all)
  moreover have "keys_of c' = k # removeAll k (keys_of c)"
    using splice_keys[OF inv Some] by (simp add: c' keys_of_def splice_begin_def)
  ultimately show ?thesis by simp
next
  case None
  have nk: "k \<notin> set (keys_of c)"
    using inv_absent_key[OF inv, of k] None by simp
  then have ra: "removeAll k (keys_of c) = keys_of c" by simp
  have len: "length (keys_of c) \<le> cap c"
    using inv by (simp add: lru_inv_def keys_of_def)
  define c1 where "c1 = emplace_new c k v"
  have c1: "cache c1 = (new_iter (cache c), k, v) # cache c" "cap c1 = cap c"
    by (simp_all add: c1_def emplace_new_def Let_def)
  show ?thesis
  proof (cases "length (cache c1) > cap c1")
    case False
    with None p have "c' = c1" by (simp add: put_def c1_def[symmetric])
    then have "keys_of c' = k # keys_of c"
      by (simp add: keys_of_def c1)
    moreover from False have "length (k # keys_of c) \<le> cap c"
      by (simp add: c1 keys_of_def)
    then have "take (cap c) (k # keys_of c) = k # keys_of c"
      by (rule take_all)
    ultimately show ?thesis by (simp only: ra)
  next
    case True
    with None p have "evict_back c1 = Inr c'" by (simp add: put_def c1_def[symmetric])
    then have "cache c' = butlast (cache c1)"
      by (auto simp: evict_back_def c1 Let_def)
    then have "keys_of c' = butlast (k # keys_of c)"
      by (simp add: keys_of_def c1 map_butlast)
    also have "\<dots> = take (length (k # keys_of c) - 1) (k # keys_of c)"
      by (rule butlast_conv_take)
    also have "length (k # keys_of c) - 1 = cap c"
      using True len by (simp add: c1 keys_of_def)
    finally show ?thesis by (simp add: ra)
  qed
qed

lemma mru_keys_snoc: "mru_keys (ps @ [(k, v)]) = k # removeAll k (mru_keys ps)"
proof -
  have "remdups (xs @ [k]) = removeAll k (remdups xs) @ [k]" for xs :: "string list"
    by (induction xs) auto
  then show ?thesis
    by (simp add: mru_keys_def removeAll_filter_not_eq rev_filter)
qed

lemma take_removeAll_take:
  "distinct ys \<Longrightarrow> take m (removeAll k (take (Suc m) ys)) = take m (removeAll k ys)"
proof (induction ys arbitrary: m)
  case Nil
  then show ?case by simp
next
  case (Cons x ys)
  show ?case
  proof (cases "x = k")
    case True
    with Cons.prems have "k \<notin> set ys" by simp
    moreover then have "k \<notin> set (take m ys)" by (auto dest: in_set_takeD)
    ultimately show ?thesis using True by simp
  next
    case False
    show ?thesis
    proof (cases m)
      case 0
      then show ?thesis by simp
    next
      case (Suc j)
      with Cons False show ?thesis by simp
    qed
  qed
qed

lemma take_touch:
  assumes "distinct ys"
  shows "take n (k # removeAll k (take n ys)) = take n (k # removeAll k ys)"
proof (cases n)
  case 0
  then show ?thesis by simp
next
  case (Suc m)
  then show ?thesis using take_removeAll_take[OF assms, of m k] by simp
qed

lemma run_puts:
  "\<exists>c. run (LRUCache n) (puts ps) = Inr c \<and> lru_inv c \<and> cap c = n \<and>
       keys_of c = take n (mru_keys ps)"
proof (induction ps rule: rev_induct)
  case Nil
  show ?case
    by (simp add: puts_def lru_inv_LRUCache mru_keys_def) (simp add: LRUCache_def keys_of_def)
next
  case (snoc p ps)
  obtain k v where p: "p = (k, v)" by (cases p) auto
  from snoc obtain c where c: "run (LRUCache n) (puts ps) = Inr c" "lru_inv c" "cap c = n"
    "keys_of c = take n (mru_keys ps)" by blast
  from lru_inv_put[OF c(2), of k v] obtain c' where
    c': "put c k v = Inr c'" "lru_inv c'" "cap c' = cap c" by blast
  have "distinct (mru_keys ps)" by (simp add: mru_keys_def)
  then have "keys_of c' = take n (mru_keys (ps @ [p]))"
    using put_keys[OF c(2) c'(1)] c(3,4) by (simp add: p mru_keys_snoc take_touch)
  moreover have "run (LRUCache n) (puts (ps @ [p])) = Inr c'"
    using c(1) c'(1) by (simp add: puts_def run_append p)
  ultimately show ?case using c' c(3) by auto
qed

text \<open>
  Claim C2. Start from a constructed cache of capacity \<open>n\<close> and call \<open>put\<close> with the
  (key, value) pairs of any list \<open>ps\<close>, in order. Every call returns, and afterwards the
  keys of the recency list, head first, are the first \<open>n\<close> of \<open>mru_keys ps\<close>: the distinct
  keys of the sequence, most recently used first. The index has exactly these keys. When
  the sequence has more than \<open>n\<close> distinct keys, the cache holds exactly \<open>n\<close> entries,
  and every key of the sequence that is not among the \<open>n\<close> most recently used has no
  entry: it has been evicted. The first part holds for every sequence, so it holds after
  every prefix: each eviction took the key that was least recently used at that moment.
\<close>

theorem puts_keep_most_recent_keys:
  "\<exists>c. run (LRUCache n) (puts ps) = Inr c \<and>
       keys_of c = take n (mru_keys ps) \<and>
       dom (map_index c) = set (take n (mru_keys ps)) \<and>
       distinct (mru_keys ps) \<and> set (mru_keys ps) = fst ` set ps \<and>
       (n < card (fst ` set ps) \<longrightarrow>
          length (cache c) = n \<and> card (dom (map_index c)) = n \<and>
          (\<forall>k \<in> set (drop n (mru_keys ps)). map_index c k = None))"
proof -
  from run_puts[of n ps] obtain c where c: "run (LRUCache n) (puts ps) = Inr c" "lru_inv c"
    "keys_of c = take n (mru_keys ps)" by blast
  have d: "distinct (mru_keys ps)" and s: "set (mru_keys ps) = fst ` set ps"
    by (simp_all add: mru_keys_def)
  have dom: "dom (map_index c) = set (keys_of c)"
    using inv_absent_key[OF c(2)] by (auto simp: dom_def)
  have len: "length (mru_keys ps) = card (fst ` set ps)"
    using distinct_card[OF d] s by simp
  have ex: "length (cache c) = n \<and> card (dom (map_index c)) = n \<and>
          (\<forall>k \<in> set (drop n (mru_keys ps)). map_index c k = None)"
    if "n < card (fst ` set ps)"
  proof (intro conjI ballI)
    have "length (keys_of c) = n" using that len by (simp add: c(3))
    then show "length (cache c) = n" by (simp add: keys_of_def)
    have "distinct (keys_of c)" using d by (simp add: c(3))
    from distinct_card[OF this] show "card (dom (map_index c)) = n"
      using \<open>length (keys_of c) = n\<close> by (simp add: dom)
  next
    fix k assume "k \<in> set (drop n (mru_keys ps))"
    moreover have "set (take n (mru_keys ps)) \<inter> set (drop n (mru_keys ps)) = {}"
      using d by (metis append_take_drop_id distinct_append)
    ultimately have "k \<notin> set (keys_of c)" by (auto simp: c(3))
    then show "map_index c k = None" using inv_absent_key[OF c(2)] by simp
  qed
  from c(1,3) dom d s ex show ?thesis by (simp add: c(3))
qed

theorem puts_keep_most_recent_keys_witness:
  "run (LRUCache 2) (puts [(''a'', ''1''), (''b'', ''2''), (''c'', ''3''), (''a'', ''4'')])
     = Inr \<lparr>cap = 2, cache = [(3, ''a'', ''4''), (2, ''c'', ''3'')],
            map_index = [''c'' \<mapsto> 2, ''a'' \<mapsto> 3]\<rparr> \<and>
   mru_keys [(''a'', ''1''), (''b'', ''2''), (''c'', ''3''), (''a'', ''4'')] = [''a'', ''c'', ''b''] \<and>
   2 < card (fst ` set [(''a'', ''1''), (''b'', ''2''), (''c'', ''3''), (''a'', ''4'')]) \<and>
   keys_of \<lparr>cap = 2, cache = [(3, ''a'', ''4''), (2, ''c'', ''3'')],
            map_index = [''c'' \<mapsto> 2, ''a'' \<mapsto> 3]\<rparr> = [''a'', ''c''] \<and>
   [''c'' \<mapsto> 2::nat, ''a'' \<mapsto> 3] ''b'' = None"
proof -
  define ps where "ps = [(''a'', ''1''), (''b'', ''2''), (''c'', ''3''), (''a'', ''4'')]"
  define c where "c = \<lparr>cap = 2, cache = [(3, ''a'', ''4''), (2, ''c'', ''3'')],
            map_index = [''c'' \<mapsto> 2, ''a'' \<mapsto> 3]\<rparr>"
  have e: "run (LRUCache 2) (puts ps) = Inr c"
    by (simp add: ps_def c_def puts_def LRUCache_def put_def emplace_new_def evict_back_def
        Let_def eval_nat_numeral)
  have m: "mru_keys ps = [''a'', ''c'', ''b'']"
    by (simp add: ps_def mru_keys_def)
  have h: "2 < card (fst ` set ps)"
  proof -
    have "fst ` set ps = set (map fst ps)" by simp
    also have "card \<dots> = length (remdups (map fst ps))" by (simp add: length_remdups_card_conv)
    also have "\<dots> = 3" by (simp add: ps_def)
    finally show ?thesis by simp
  qed
  from puts_keep_most_recent_keys[of 2 ps] obtain c' where
    c': "run (LRUCache 2) (puts ps) = Inr c'" "keys_of c' = take 2 (mru_keys ps)"
      "2 < card (fst ` set ps) \<longrightarrow>
          length (cache c') = 2 \<and> card (dom (map_index c')) = 2 \<and>
          (\<forall>k \<in> set (drop 2 (mru_keys ps)). map_index c' k = None)"
    by blast
  from c'(1) e have "c' = c" by simp
  with c'(2,3) h have "keys_of c = take 2 (mru_keys ps)"
    and "\<forall>k \<in> set (drop 2 (mru_keys ps)). map_index c k = None"
    by simp_all
  then have "keys_of c = [''a'', ''c'']" "map_index c ''b'' = None"
    unfolding m by simp_all
  with e m h show ?thesis
    unfolding ps_def c_def by simp
qed

end
